theory Spec2Isabelle
  imports Main "HOL-Library.Word" "HOL-Library.Sublist"
begin

section \<open>Strings of the host language\<close>

text \<open>
  A JavaScript string is a sequence of UTF-16 code units; \<open>length\<close>, \<open>substring\<close>,
  \<open>search\<close> and the regular-expression classes all count code units. The zero-width
  space U+200B is one code unit, so strings are lists of 16-bit words, not byte lists.
\<close>

type_synonym jschar = "16 word"
type_synonym jsstring = "jschar list"

text \<open>An ASCII literal as a JavaScript string.\<close>

definition js :: "string \<Rightarrow> jsstring" where
  "js s = map of_char s"

definition DOLLAR :: jschar where
  "DOLLAR = 36"

definition ZWSP :: jschar where
  "ZWSP = 8203"

text \<open>\<open>text.substring(i)\<close> is \<open>drop i text\<close> and \<open>text.substring(0, i)\<close> is
  \<open>take i text\<close>: both clamp an index beyond the end, as JavaScript does.\<close>

text \<open>\<open>text.indexOf(pat)\<close>: the first position where \<open>pat\<close> occurs, \<open>None\<close> for -1.\<close>

fun index_of :: "jsstring \<Rightarrow> jsstring \<Rightarrow> nat option" where
  "index_of pat [] = (if pat = [] then Some 0 else None)"
| "index_of pat (x # xs) =
     (if prefix pat (x # xs) then Some 0 else map_option Suc (index_of pat xs))"

text \<open>\<open>text.replace(pat, rep)\<close> with a string pattern: only the first occurrence is
  replaced. (The replacement strings of the source hold no \<open>$\<close>-pattern that
  \<open>replace\<close> would expand, so \<open>rep\<close> is inserted as it is.)\<close>

definition replace_str :: "jsstring \<Rightarrow> jsstring \<Rightarrow> jsstring \<Rightarrow> jsstring" where
  "replace_str pat rep text =
     (case index_of pat text of
        None \<Rightarrow> text
      | Some i \<Rightarrow> take i text @ rep @ drop (i + length pat) text)"

text \<open>\<open>text.replaceAll(pat, rep)\<close> with a string pattern: the occurrences are found
  left to right, each search resuming after the previous occurrence. An empty pattern
  matches before every code unit and at the end.\<close>

function replaceAll_str :: "jsstring \<Rightarrow> jsstring \<Rightarrow> jsstring \<Rightarrow> jsstring" where
  "replaceAll_str pat rep text =
     (if pat = [] then rep @ concat (map (\<lambda>c. c # rep) text)
      else case index_of pat text of
             None \<Rightarrow> text
           | Some i \<Rightarrow> take i text @ rep @ replaceAll_str pat rep (drop (i + length pat) text))"
  by pat_completeness auto

lemma index_of_bound:
  "index_of pat t = Some i \<Longrightarrow> i + length pat \<le> length t"
proof (induction t arbitrary: i)
  case Nil
  then show ?case by (simp split: if_splits)
next
  case (Cons x xs)
  show ?case
  proof (cases "prefix pat (x # xs)")
    case True
    with Cons.prems have "i = 0" by simp
    with prefix_length_le [OF True] show ?thesis by simp
  next
    case False
    with Cons.prems obtain j where "index_of pat xs = Some j" "i = Suc j" by auto
    with Cons.IH show ?thesis by fastforce
  qed
qed

termination replaceAll_str
proof (relation "measure (\<lambda>(pat, rep, text). length text)")
  show "wf (measure (\<lambda>(pat, rep, text). length text))" by simp
next
  fix pat rep t :: jsstring and i
  assume "pat \<noteq> []" and "index_of pat t = Some i"
  then have "i + length pat \<le> length t" and "0 < length pat"
    by (auto dest: index_of_bound)
  then have "length t - (i + length pat) < length t"
    by arith
  then show "((pat, rep, drop (i + length pat) t), (pat, rep, t))
               \<in> measure (\<lambda>(pat, rep, text). length text)"
    by simp
qed

declare replaceAll_str.simps [simp del]

section \<open>Regular expressions\<close>

text \<open>
  A \<open>RegExp\<close> without the \<open>g\<close> and \<open>y\<close> flags is seen through what
  \<open>RegExp.prototype.exec\<close> yields on a string: nothing, or the index of the leftmost
  match and the matched text \<open>m[0]\<close>. \<open>text.search(re)\<close>, \<open>re.test(text)\<close>,
  \<open>text.match(re)\<close> and \<open>text.replace(re, rep)\<close> are all derived from it.
\<close>

type_synonym regexp = "jsstring \<Rightarrow> (nat \<times> jsstring) option"

definition search :: "regexp \<Rightarrow> jsstring \<Rightarrow> nat option" where
  "search re text = map_option fst (re text)"

definition test :: "regexp \<Rightarrow> jsstring \<Rightarrow> bool" where
  "test re text = (re text \<noteq> None)"

definition match :: "regexp \<Rightarrow> jsstring \<Rightarrow> jsstring option" where
  "match re text = map_option snd (re text)"

definition replace_re :: "regexp \<Rightarrow> jsstring \<Rightarrow> jsstring \<Rightarrow> jsstring" where
  "replace_re re rep text =
     (case re text of
        None \<Rightarrow> text
      | Some (i, m) \<Rightarrow> take i text @ rep @ drop (i + length m) text)"

text \<open>A pattern all of whose matches are non-empty pieces of the text.\<close>

definition matches_nonempty :: "regexp \<Rightarrow> bool" where
  "matches_nonempty re \<longleftrightarrow>
     (\<forall>t i m. re t = Some (i, m) \<longrightarrow> m \<noteq> [] \<and> i + length m \<le> length t)"

text \<open>
  The patterns written in the source and in its documented scenario are sequences of
  character classes, each taken once or one-or-more times (greedy, with backtracking).
\<close>

datatype cclass = Lit jschar | Digit | Space | NonSpace

datatype quant = One | Plus

type_synonym regex = "(cclass \<times> quant) list"

definition is_digit :: "jschar \<Rightarrow> bool" where
  "is_digit c \<longleftrightarrow> 48 \<le> c \<and> c \<le> 57"

text \<open>The class \<open>\s\<close>: WhiteSpace and LineTerminator of ECMAScript. U+200B is not in it.\<close>

definition is_space :: "jschar \<Rightarrow> bool" where
  "is_space c \<longleftrightarrow>
     c = 9 \<or> c = 10 \<or> c = 11 \<or> c = 12 \<or> c = 13 \<or> c = 32 \<or> c = 160 \<or> c = 5760 \<or>
     (8192 \<le> c \<and> c \<le> 8202) \<or> c = 8232 \<or> c = 8233 \<or> c = 8239 \<or> c = 8287 \<or>
     c = 12288 \<or> c = 65279"

fun in_class :: "cclass \<Rightarrow> jschar \<Rightarrow> bool" where
  "in_class (Lit d) c = (c = d)"
| "in_class Digit c = is_digit c"
| "in_class Space c = is_space c"
| "in_class NonSpace c = (\<not> is_space c)"

text \<open>The length of the match of the pattern at the start of the string, if any. A
  \<open>+\<close> first tries to take one more code unit and gives it back when the rest of the
  pattern then fails.\<close>

fun match_here :: "regex \<Rightarrow> jsstring \<Rightarrow> nat option" where
  "match_here [] s = Some 0"
| "match_here ((c, q) # rs) [] = None"
| "match_here ((c, One) # rs) (x # xs) =
     (if in_class c x then map_option Suc (match_here rs xs) else None)"
| "match_here ((c, Plus) # rs) (x # xs) =
     (if in_class c x
      then (case match_here ((c, Plus) # rs) xs of
              Some n \<Rightarrow> Some (Suc n)
            | None \<Rightarrow> map_option Suc (match_here rs xs))
      else None)"

text \<open>The leftmost match: the start positions are tried from left to right.\<close>

fun re_exec :: "regex \<Rightarrow> regexp" where
  "re_exec rs [] = map_option (\<lambda>n. (0, [])) (match_here rs [])"
| "re_exec rs (x # xs) =
     (case match_here rs (x # xs) of
        Some n \<Rightarrow> Some (0, take n (x # xs))
      | None \<Rightarrow> map_option (\<lambda>(i, m). (Suc i, m)) (re_exec rs xs))"

text \<open>Facts about the matcher: a match lies inside the string and is found again at
  the start of the suffix it begins.\<close>

lemma match_here_le: "match_here rs s = Some n \<Longrightarrow> n \<le> length s"
  by (induction rs s arbitrary: n rule: match_here.induct)
     (auto split: if_splits option.splits)

lemma match_here_pos: "rs \<noteq> [] \<Longrightarrow> match_here rs s = Some n \<Longrightarrow> 0 < n"
  by (induction rs s arbitrary: n rule: match_here.induct)
     (auto split: if_splits option.splits)

lemma re_exec_Some:
  "re_exec rs t = Some (i, m) \<Longrightarrow>
     i \<le> length t \<and> (\<exists>n. match_here rs (drop i t) = Some n \<and> m = take n (drop i t))"
proof (induction t arbitrary: i)
  case Nil
  then show ?case by auto
next
  case (Cons x xs)
  show ?case
  proof (cases "match_here rs (x # xs)")
    case (Some n)
    with Cons.prems show ?thesis by auto
  next
    case None
    with Cons.prems obtain j where j: "re_exec rs xs = Some (j, m)" "i = Suc j"
      by auto
    with Cons.IH [OF j(1)] show ?thesis by simp
  qed
qed

lemma re_exec_first:
  "re_exec rs t = Some (i, m) \<Longrightarrow> j < i \<Longrightarrow> match_here rs (drop j t) = None"
proof (induction t arbitrary: i j)
  case Nil
  then show ?case by auto
next
  case (Cons x xs)
  show ?case
  proof (cases "match_here rs (x # xs)")
    case (Some n)
    with Cons.prems show ?thesis by auto
  next
    case None
    with Cons.prems obtain k where k: "re_exec rs xs = Some (k, m)" "i = Suc k"
      by auto
    show ?thesis
    proof (cases j)
      case 0
      with None show ?thesis by simp
    next
      case (Suc j')
      with Cons.IH [OF k(1), of j'] k(2) Cons.prems(2) show ?thesis by simp
    qed
  qed
qed

lemma re_exec_here:
  "match_here rs t = Some n \<Longrightarrow> re_exec rs t = Some (0, take n t)"
  by (cases t) auto

lemma re_exec_drop:
  "re_exec rs t = Some (i, m) \<Longrightarrow> re_exec rs (drop i t) = Some (0, m)"
  using re_exec_Some [of rs t i m] re_exec_here [of rs "drop i t"] by auto

lemma re_exec_bound:
  "re_exec rs t = Some (i, m) \<Longrightarrow> i + length m \<le> length t"
  using re_exec_Some [of rs t i m] by auto

lemma re_exec_nonempty:
  "rs \<noteq> [] \<Longrightarrow> re_exec rs t = Some (i, m) \<Longrightarrow> m \<noteq> []"
proof -
  assume rs: "rs \<noteq> []" and ex: "re_exec rs t = Some (i, m)"
  from re_exec_Some [OF ex] obtain n where
    n: "match_here rs (drop i t) = Some n" "m = take n (drop i t)" by auto
  from match_here_pos [OF rs n(1)] match_here_le [OF n(1)] n(2) show ?thesis
    by auto
qed

lemma length_replace_str: "length (replace_str pat [] t) \<le> length t"
  by (auto simp: replace_str_def split: option.splits)

section \<open>The delimiter codec\<close>

text \<open>\<open>const reWidgetPrefix = /\$\$widget\d+\s/\<close>\<close>

definition reWidgetPrefix :: regexp where
  "reWidgetPrefix =
     re_exec (map (\<lambda>c. (Lit c, One)) (js ''$$widget'') @ [(Digit, Plus), (Space, One)])"

text \<open>What \<open>unwrapWidgetSyntax\<close> hands to its recursive call is shorter than its input:
  the open marker that \<open>search\<close> found starts the rest, is at least ten code units
  long, and is removed.\<close>

lemma unwrap_shrinks:
  assumes "search reWidgetPrefix t = Some index"
  shows "length (replace_str (js ''$$'') [] (replace_re reWidgetPrefix [] (drop index t)))
           < length t - index"
proof -
  let ?rs = "map (\<lambda>c. (Lit c, One)) (js ''$$widget'') @ [(Digit, Plus), (Space, One)]"
  from assms obtain m where ex: "re_exec ?rs t = Some (index, m)"
    by (auto simp: search_def reWidgetPrefix_def)
  have ne: "?rs \<noteq> []" by simp
  from re_exec_nonempty [OF ne ex] have m: "m \<noteq> []" .
  from re_exec_bound [OF ex] have b: "index + length m \<le> length t" .
  from re_exec_drop [OF ex]
  have "replace_re reWidgetPrefix [] (drop index t) = drop (length m) (drop index t)"
    by (simp add: replace_re_def reWidgetPrefix_def)
  moreover have "length (drop (length m) (drop index t)) < length t - index"
    using m b by (cases m) auto
  ultimately show ?thesis
    using length_replace_str [of "js ''$$''" "replace_re reWidgetPrefix [] (drop index t)"]
    by simp
qed

text \<open>
  \<^verbatim>\<open>
  export function unwrapWidgetSyntax(text: string) {
    const index = text.search(reWidgetPrefix);
    if (index !== -1) {
      const rest = text.substring(index);
      const replaced = rest.replace(reWidgetPrefix, '').replace('$$', '');
      text = text.substring(0, index);
      text += unwrapWidgetSyntax(replaced);
    }
    return text;
  }
  \<close>
\<close>

function unwrapWidgetSyntax :: "jsstring \<Rightarrow> jsstring" where
  "unwrapWidgetSyntax text =
     (case search reWidgetPrefix text of
        None \<Rightarrow> text
      | Some index \<Rightarrow>
          (let rest = drop index text;
               replaced = replace_str (js ''$$'') [] (replace_re reWidgetPrefix [] rest)
           in take index text @ unwrapWidgetSyntax replaced))"
  by pat_completeness auto
termination
proof (relation "measure length")
  show "wf (measure (length :: jsstring \<Rightarrow> nat))" by simp
next
  fix t :: jsstring and index rest replaced
  assume "search reWidgetPrefix t = Some index"
    and "rest = drop index t"
    and "replaced = replace_str (js ''$$'') [] (replace_re reWidgetPrefix [] rest)"
  with unwrap_shrinks [of t index] show "(replaced, t) \<in> measure length"
    by simp
qed

declare unwrapWidgetSyntax.simps [simp del]

text \<open>The depth of the recursion of \<open>unwrapWidgetSyntax\<close> on an input: the same search
  and the same argument of the recursive call, counting the calls instead of building
  the string.\<close>

function unwrap_depth :: "jsstring \<Rightarrow> nat" where
  "unwrap_depth text =
     (case search reWidgetPrefix text of
        None \<Rightarrow> 0
      | Some index \<Rightarrow>
          (let rest = drop index text;
               replaced = replace_str (js ''$$'') [] (replace_re reWidgetPrefix [] rest)
           in Suc (unwrap_depth replaced)))"
  by pat_completeness auto
termination
proof (relation "measure length")
  show "wf (measure (length :: jsstring \<Rightarrow> nat))" by simp
next
  fix t :: jsstring and index rest replaced
  assume "search reWidgetPrefix t = Some index"
    and "rest = drop index t"
    and "replaced = replace_str (js ''$$'') [] (replace_re reWidgetPrefix [] rest)"
  with unwrap_shrinks [of t index] show "(replaced, t) \<in> measure length"
    by simp
qed

declare unwrap_depth.simps [simp del]

text \<open>
  \<^verbatim>\<open>
  export function createWidgetContent(info: string, content: string) {
    const safeContent = content.replaceAll('$$', `$${'\u200B'}$`);
    return `$$${info} ${safeContent}$$`;
  }
  \<close>
  The first template literal is a dollar sign, the interpolated U+200B and a dollar sign;
  \<open>replaceAll\<close> finds no replacement pattern in it and inserts it as it is.
\<close>

definition createWidgetContent :: "jsstring \<Rightarrow> jsstring \<Rightarrow> jsstring" where
  "createWidgetContent info content =
     (let safeContent = replaceAll_str (js ''$$'') [DOLLAR, ZWSP, DOLLAR] content
      in js ''$$'' @ info @ js '' '' @ safeContent @ js ''$$'')"

text \<open>The pattern of \<open>reWidgetPrefix\<close> as a list of classes.\<close>

abbreviation marker_regex :: regex where
  "marker_regex \<equiv> map (\<lambda>c. (Lit c, One)) (js ''$$widget'') @ [(Digit, Plus), (Space, One)]"

text \<open>A string is guarded when every open marker in it that does not start the string
  comes directly after a zero-width space; the flag tells whether a marker may start
  here.\<close>

fun guarded :: "bool \<Rightarrow> jsstring \<Rightarrow> bool" where
  "guarded g [] = True"
| "guarded g (x # xs) =
     ((match_here marker_regex (x # xs) \<noteq> None \<longrightarrow> g) \<and> guarded (x = ZWSP) xs)"

text \<open>The same for the occurrences of the bare delimiter \<open>$$\<close>.\<close>

fun delim_guarded :: "bool \<Rightarrow> jsstring \<Rightarrow> bool" where
  "delim_guarded g [] = True"
| "delim_guarded g (x # xs) =
     ((prefix (js ''$$'') (x # xs) \<longrightarrow> g) \<and> delim_guarded (x = ZWSP) xs)"

section \<open>The widget rule registry\<close>

datatype error = TypeError

text \<open>\<open>WidgetRule\<close>: a pattern and the conversion function of the plugin.\<close>

record 'd WidgetRule =
  rule :: regexp
  toDOM :: "jsstring \<Rightarrow> 'd"

text \<open>The decimal digits of an index, as the template literal \<open>`widget${index}`\<close>
  prints it.\<close>

function show_nat :: "nat \<Rightarrow> jsstring" where
  "show_nat n =
     (if n < 10 then [of_nat (48 + n)]
      else show_nat (n div 10) @ [of_nat (48 + n mod 10)])"
  by pat_completeness auto
termination
  by (relation "measure id") auto

declare show_nat.simps [simp del]

definition widget_id :: "nat \<Rightarrow> jsstring" where
  "widget_id index = js ''widget'' @ show_nat index"

text \<open>The module state: \<open>let widgetRules: WidgetRule[] = []\<close> and
  \<open>const widgetRuleMap: WidgetRuleMap = {}\<close>.\<close>

record 'd registry =
  widgetRules :: "'d WidgetRule list"
  widgetRuleMap :: "jsstring \<rightharpoonup> 'd WidgetRule"

definition initial_registry :: "'d registry" where
  "initial_registry = \<lparr>widgetRules = [], widgetRuleMap = Map.empty\<rparr>"

definition getWidgetRules :: "'d registry \<Rightarrow> 'd WidgetRule list" where
  "getWidgetRules st = widgetRules st"

text \<open>
  \<^verbatim>\<open>
  export function setWidgetRules(rules: WidgetRule[]) {
    widgetRules = rules;
    widgetRules.forEach((rule, index) => {
      widgetRuleMap[`widget${index}`] = rule;
    });
  }
  \<close>
\<close>

definition setWidgetRules :: "'d WidgetRule list \<Rightarrow> 'd registry \<Rightarrow> 'd registry" where
  "setWidgetRules rules st =
     \<lparr>widgetRules = rules,
      widgetRuleMap = fold (\<lambda>(index, r) m. m(widget_id index \<mapsto> r))
                        (enumerate 0 rules) (widgetRuleMap st)\<rparr>"

text \<open>
  \<^verbatim>\<open>
  export function widgetToDOM(info: string, text: string) {
    const { rule, toDOM } = widgetRuleMap[info];
    const matches = unwrapWidgetSyntax(text).match(rule);
    if (matches) {
      text = matches[0];
    }
    return toDOM(text);
  }
  \<close>
  Destructuring the \<open>undefined\<close> that a missing key yields throws a TypeError.
\<close>

definition widgetToDOM :: "'d registry \<Rightarrow> jsstring \<Rightarrow> jsstring \<Rightarrow> error + 'd" where
  "widgetToDOM st info text =
     (case widgetRuleMap st info of
        None \<Rightarrow> Inl TypeError
      | Some r \<Rightarrow>
          (case match (rule r) (unwrapWidgetSyntax text) of
             Some m \<Rightarrow> Inr (toDOM r m)
           | None \<Rightarrow> Inr (toDOM r text)))"

section \<open>The segmentation engine\<close>

text \<open>The nodes the schema builds: \<open>schema.text(s)\<close> and
  \<open>schema.nodes.widget.create({ info }, child)\<close>.\<close>

datatype node = TextNode jsstring | WidgetNode jsstring node

text \<open>A call either returns nodes, throws, or (\<open>None\<close>) never returns.\<close>

type_synonym nodes_result = "(error + node list) option"

text \<open>\<open>mergeNodes(nodes, text, schema, ruleIndex)\<close> is
  \<open>nodes.concat(createNodesWithWidget(text, schema, ruleIndex))\<close>; the segmentation with
  the rule index it is called with is the argument \<open>create\<close>.\<close>

definition mergeNodes ::
  "(jsstring \<Rightarrow> nodes_result) \<Rightarrow> node list \<Rightarrow> jsstring \<Rightarrow> nodes_result" where
  "mergeNodes create nodes text =
     (case create text of
        None \<Rightarrow> None
      | Some (Inl e) \<Rightarrow> Some (Inl e)
      | Some (Inr created) \<Rightarrow> Some (Inr (nodes @ created)))"

text \<open>
  The \<open>while\<close> loop of \<open>createNodesWithWidget\<close>, with the loop variables \<open>text\<close> and
  \<open>nodes\<close> as arguments; it returns both. \<open>const [literal] = text.match(rule)!\<close> throws
  a TypeError when the pattern does not match the suffix.
  \<^verbatim>\<open>
    while ((index = text.search(rule)) !== -1) {
      const prev = text.substring(0, index);
      if (prev) {
        nodes = mergeNodes(nodes, prev, schema, nextRuleIndex);
      }
      text = text.substring(index);
      const [literal] = text.match(rule)!;
      const info = `widget${ruleIndex}`;
      nodes.push(
        schema.nodes.widget.create({ info }, schema.text(createWidgetContent(info, literal)))
      );
      text = text.substring(literal.length);
    }
  \<close>
\<close>

partial_function (option) widget_loop ::
  "(jsstring \<Rightarrow> nodes_result) \<Rightarrow> regexp \<Rightarrow> nat \<Rightarrow> jsstring \<Rightarrow> node list
     \<Rightarrow> (error + node list \<times> jsstring) option" where
  "widget_loop create re ruleIndex text nodes =
     (case search re text of
        None \<Rightarrow> Some (Inr (nodes, text))
      | Some index \<Rightarrow>
          (case (if take index text \<noteq> [] then mergeNodes create nodes (take index text)
                 else Some (Inr nodes)) of
             None \<Rightarrow> None
           | Some (Inl e) \<Rightarrow> Some (Inl e)
           | Some (Inr nodes1) \<Rightarrow>
               (case match re (drop index text) of
                  None \<Rightarrow> Some (Inl TypeError)
                | Some literal \<Rightarrow>
                    widget_loop create re ruleIndex
                      (drop (length literal) (drop index text))
                      (nodes1 @ [WidgetNode (widget_id ruleIndex)
                                   (TextNode (createWidgetContent (widget_id ruleIndex) literal))]))))"

declare widget_loop.simps [code]

text \<open>
  \<^verbatim>\<open>
  export function createNodesWithWidget(text: string, schema: Schema, ruleIndex = 0) {
    let nodes: ProsemirrorNode[] = [];
    const { rule } = widgetRules[ruleIndex] || {};
    const nextRuleIndex = ruleIndex + 1;
    text = unwrapWidgetSyntax(text);
    if (rule && rule.test(text)) {
      let index;
      while (...) { ... }
      if (text) {
        nodes = mergeNodes(nodes, text, schema, nextRuleIndex);
      }
    } else if (text) {
      nodes =
        ruleIndex < widgetRules.length - 1
          ? mergeNodes(nodes, text, schema, nextRuleIndex)
          : [schema.text(text)];
    }
    return nodes;
  }
  \<close>
  \<open>rule\<close> is defined exactly when \<open>ruleIndex\<close> is below the length of the list.
\<close>

function createNodesWithWidget :: "'d registry \<Rightarrow> jsstring \<Rightarrow> nat \<Rightarrow> nodes_result" where
  "createNodesWithWidget st text0 ruleIndex =
     (let nextRuleIndex = ruleIndex + 1;
          text = unwrapWidgetSyntax text0
      in if ruleIndex < length (widgetRules st) \<and> test (rule (widgetRules st ! ruleIndex)) text
         then (case widget_loop (\<lambda>t. createNodesWithWidget st t nextRuleIndex)
                      (rule (widgetRules st ! ruleIndex)) ruleIndex text [] of
                 None \<Rightarrow> None
               | Some (Inl e) \<Rightarrow> Some (Inl e)
               | Some (Inr (nodes, text1)) \<Rightarrow>
                   if text1 \<noteq> []
                   then mergeNodes (\<lambda>t. createNodesWithWidget st t nextRuleIndex) nodes text1
                   else Some (Inr nodes))
         else if text \<noteq> []
         then (if int ruleIndex < int (length (widgetRules st)) - 1
               then mergeNodes (\<lambda>t. createNodesWithWidget st t nextRuleIndex) [] text
               else Some (Inr [TextNode text]))
         else Some (Inr []))"
  by pat_completeness auto
termination
  by (relation "measure (\<lambda>(st, text0, ruleIndex). length (widgetRules st) - ruleIndex)") auto

declare createNodesWithWidget.simps [simp del]

text \<open>The rules of the documented scenario: \<open>/\$\S+/\<close> and \<open>/#\S+/\<close>.\<close>

definition dollar_word :: regexp where
  "dollar_word = re_exec [(Lit DOLLAR, One), (NonSpace, Plus)]"

definition hash_word :: regexp where
  "hash_word = re_exec [(Lit 35, One), (NonSpace, Plus)]"

section \<open>The widget content extractor\<close>

text \<open>A node of the parsed Markdown tree: its type, its literal text and its children.\<close>

datatype mdnode = MdNode (ntype: string) (literal: jsstring) (children: "mdnode list")

text \<open>A node of the tree under the root is addressed by the child indices that lead to
  it; the root itself by the empty path.\<close>

fun node_at :: "mdnode \<Rightarrow> nat list \<Rightarrow> mdnode option" where
  "node_at n [] = Some n"
| "node_at n (i # p) =
     (if i < length (children n) then node_at (children n ! i) p else None)"

text \<open>
  Modelled from the spec: the subtree walker of the Markdown parser (\<open>walker()\<close>,
  \<open>next()\<close>, \<open>resumeAt(node, entering)\<close>) is not among the sources. The spec gives a
  stateful depth-first iterator of enter/exit events over the subtree of its root, with
  \<open>next() -> {node, entering} | null\<close> and \<open>resumeAt\<close> repositioning the cursor. The
  cursor is the current node and the direction; a container is entered and later left,
  any other node yields one event; after the exit event of the root the walker is
  exhausted. Which node types are containers is the parameter \<open>isContainer\<close>.
\<close>

record walker =
  root :: mdnode
  current :: "nat list option"
  entering :: bool

record event =
  ev_node :: mdnode
  ev_path :: "nat list"
  ev_entering :: bool

text \<open>Modelled from the spec: \<open>widgetNode.walker()\<close>, a walker about to enter its
  root.\<close>

definition walker_of :: "mdnode \<Rightarrow> walker" where
  "walker_of n = \<lparr>root = n, current = Some [], entering = True\<rparr>"

text \<open>Modelled from the spec: \<open>resumeAt(node, entering)\<close> repositions the cursor.\<close>

definition resumeAt :: "nat list \<Rightarrow> bool \<Rightarrow> walker \<Rightarrow> walker" where
  "resumeAt p e w = w\<lparr>current := Some p, entering := e\<rparr>"

text \<open>Modelled from the spec: \<open>next()\<close> yields the event at the cursor, or nothing
  once the walker is exhausted, and moves the cursor on in depth-first order.\<close>

definition walker_next :: "(mdnode \<Rightarrow> bool) \<Rightarrow> walker \<Rightarrow> event option \<times> walker" where
  "walker_next isContainer w =
     (case current w of
        None \<Rightarrow> (None, w)
      | Some p \<Rightarrow>
          (case node_at (root w) p of
             None \<Rightarrow> (None, w)
           | Some cur \<Rightarrow>
               (Some \<lparr>ev_node = cur, ev_path = p, ev_entering = entering w\<rparr>,
                if entering w \<and> isContainer cur
                then (if children cur \<noteq> []
                      then w\<lparr>current := Some (p @ [0]), entering := True\<rparr>
                      else w\<lparr>entering := False\<rparr>)
                else if p = [] then w\<lparr>current := None\<rparr>
                else if node_at (root w) (butlast p @ [Suc (last p)]) = None
                then w\<lparr>current := Some (butlast p), entering := False\<rparr>
                else w\<lparr>current := Some (butlast p @ [Suc (last p)]), entering := True\<rparr>)))"

text \<open>
  The loop of \<open>getWidgetContent\<close>, with the walker and the accumulated \<open>text\<close> as
  arguments. \<open>node !== widgetNode\<close> compares with the root of the walk, the node at the
  empty path. The text extraction of a generic inline node is the parameter
  \<open>getInlineMarkdownText\<close>.
  \<^verbatim>\<open>
    while ((event = walker.next())) {
      const { node, entering } = event;
      if (entering) {
        if (node !== widgetNode && node.type !== 'text') {
          text += getInlineMarkdownText(node);
          // skip the children
          walker.resumeAt(widgetNode, false);
          walker.next();
        } else if (node.type === 'text') {
          text += node.literal;
        }
      }
    }
    return text;
  \<close>
\<close>

partial_function (option) content_loop ::
  "(mdnode \<Rightarrow> bool) \<Rightarrow> (mdnode \<Rightarrow> jsstring) \<Rightarrow> walker \<Rightarrow> jsstring \<Rightarrow> jsstring option" where
  "content_loop isContainer getInlineMarkdownText w text =
     (case walker_next isContainer w of
        (None, w1) \<Rightarrow> Some text
      | (Some ev, w1) \<Rightarrow>
          if ev_entering ev
          then (if ev_path ev \<noteq> [] \<and> ntype (ev_node ev) \<noteq> ''text''
                then content_loop isContainer getInlineMarkdownText
                       (snd (walker_next isContainer (resumeAt [] False w1)))
                       (text @ getInlineMarkdownText (ev_node ev))
                else if ntype (ev_node ev) = ''text''
                then content_loop isContainer getInlineMarkdownText w1
                       (text @ literal (ev_node ev))
                else content_loop isContainer getInlineMarkdownText w1 text)
          else content_loop isContainer getInlineMarkdownText w1 text)"

declare content_loop.simps [code]

definition getWidgetContent ::
  "(mdnode \<Rightarrow> bool) \<Rightarrow> (mdnode \<Rightarrow> jsstring) \<Rightarrow> mdnode \<Rightarrow> jsstring option" where
  "getWidgetContent isContainer getInlineMarkdownText widgetNode =
     content_loop isContainer getInlineMarkdownText (walker_of widgetNode) []"

section \<open>Properties of the delimiter codec\<close>

lemma unwrap_no_marker:
  "search reWidgetPrefix t = None \<Longrightarrow> unwrapWidgetSyntax t = t"
  by (subst unwrapWidgetSyntax.simps) simp

lemma unwrap_marker:
  "search reWidgetPrefix t = Some index \<Longrightarrow>
     unwrapWidgetSyntax t =
       take index t @
       unwrapWidgetSyntax
         (replace_str (js ''$$'') [] (replace_re reWidgetPrefix [] (drop index t)))"
  by (subst unwrapWidgetSyntax.simps) (simp add: Let_def)

lemma subseq_cut: "subseq (take i t @ drop (i + n) t) t"
proof -
  have "subseq (drop n (drop i t)) (drop i t)"
    by (metis append_take_drop_id subseq_drop_many subseq_order.order_refl)
  then have "subseq (take i t @ drop n (drop i t)) (take i t @ drop i t)"
    by (simp only: subseq_append')
  then show ?thesis by (simp only: append_take_drop_id drop_drop add.commute)
qed

lemma subseq_replace_str: "subseq (replace_str pat [] t) t"
  by (auto simp: replace_str_def subseq_cut split: option.splits)

lemma subseq_replace_re: "subseq (replace_re re [] t) t"
  by (auto simp: replace_re_def subseq_cut split: option.splits)

lemma subseq_unwrap: "subseq (unwrapWidgetSyntax t) t"
proof (induction t rule: unwrapWidgetSyntax.induct)
  case (1 t)
  show ?case
  proof (cases "search reWidgetPrefix t")
    case None
    then show ?thesis by (simp add: unwrap_no_marker)
  next
    case (Some index)
    let ?rest = "drop index t"
    let ?replaced = "replace_str (js ''$$'') [] (replace_re reWidgetPrefix [] ?rest)"
    have "subseq (unwrapWidgetSyntax ?replaced) ?replaced"
      using 1 [OF Some refl refl] .
    also have "subseq ?replaced (replace_re reWidgetPrefix [] ?rest)"
      by (rule subseq_replace_str)
    also have "subseq (replace_re reWidgetPrefix [] ?rest) ?rest"
      by (rule subseq_replace_re)
    finally have "subseq (take index t @ unwrapWidgetSyntax ?replaced) (take index t @ ?rest)"
      by (simp only: subseq_append')
    then have "subseq (take index t @ unwrapWidgetSyntax ?replaced) t"
      by (simp only: append_take_drop_id)
    with unwrap_marker [OF Some] show ?thesis by simp
  qed
qed

text \<open>
  C10. For every string, \<open>unwrapWidgetSyntax\<close> returns a subsequence of its input:
  decoding deletes code units (the open marker and one \<open>$$\<close> per pass) and neither
  inserts nor reorders any, so the output is at most as long as the input.
\<close>

theorem unwrap_only_deletes:
  "subseq (unwrapWidgetSyntax t) t \<and> length (unwrapWidgetSyntax t) \<le> length t"
  using subseq_unwrap [of t] by (simp add: list_emb_length)

lemma unwrap_shorter:
  assumes "search reWidgetPrefix y = Some index"
  shows "length (unwrapWidgetSyntax y) < length y"
proof -
  let ?replaced = "replace_str (js ''$$'') [] (replace_re reWidgetPrefix [] (drop index y))"
  have "length (unwrapWidgetSyntax ?replaced) \<le> length ?replaced"
    using subseq_unwrap [of ?replaced] by (simp add: list_emb_length)
  moreover have "length ?replaced < length y - index"
    using assms by (rule unwrap_shrinks)
  ultimately show ?thesis
    by (simp add: unwrap_marker [OF assms])
qed

lemma unwrap_depth_le: "unwrap_depth t \<le> length t"
proof (induction t rule: unwrap_depth.induct)
  case (1 t)
  show ?case
  proof (cases "search reWidgetPrefix t")
    case None
    then show ?thesis by (subst unwrap_depth.simps) simp
  next
    case (Some index)
    let ?replaced = "replace_str (js ''$$'') [] (replace_re reWidgetPrefix [] (drop index t))"
    have "unwrap_depth ?replaced \<le> length ?replaced"
      using 1 [OF Some refl refl] .
    moreover have "length ?replaced < length t - index"
      using Some by (rule unwrap_shrinks)
    moreover have "unwrap_depth t = Suc (unwrap_depth ?replaced)"
      using Some by (subst unwrap_depth.simps) (simp add: Let_def)
    ultimately show ?thesis by simp
  qed
qed

text \<open>
  C8. \<open>unwrapWidgetSyntax\<close> is a total function: its definition was accepted with the
  length of the input as the measure. Whenever the open marker is found at \<open>index\<close>, the
  string of the recursive call (the rest without the marker and without its first
  \<open>$$\<close>) is strictly shorter than the input and the result is the kept prefix followed
  by the result of that call; the depth of the recursion is at most the length of the
  input.
\<close>

theorem unwrap_recursion_bounded:
  "unwrap_depth t \<le> length t \<and>
   (\<forall>index. search reWidgetPrefix t = Some index \<longrightarrow>
      length (replace_str (js ''$$'') [] (replace_re reWidgetPrefix [] (drop index t)))
        < length t \<and>
      unwrapWidgetSyntax t =
        take index t @
        unwrapWidgetSyntax
          (replace_str (js ''$$'') [] (replace_re reWidgetPrefix [] (drop index t))))"
proof (intro conjI allI impI)
  show "unwrap_depth t \<le> length t" by (rule unwrap_depth_le)
next
  fix index
  assume s: "search reWidgetPrefix t = Some index"
  from unwrap_shrinks [OF s]
  show "length (replace_str (js ''$$'') [] (replace_re reWidgetPrefix [] (drop index t)))
          < length t"
    by simp
  from unwrap_marker [OF s]
  show "unwrapWidgetSyntax t =
        take index t @
        unwrapWidgetSyntax
          (replace_str (js ''$$'') [] (replace_re reWidgetPrefix [] (drop index t)))" .
qed

theorem unwrap_recursion_bounded_witness:
  "search reWidgetPrefix (js ''ab$$widget7 c$$d'') = Some 2 \<and>
   replace_str (js ''$$'') [] (replace_re reWidgetPrefix [] (drop 2 (js ''ab$$widget7 c$$d'')))
     = js ''cd'' \<and>
   length (js ''cd'') < length (js ''ab$$widget7 c$$d'') \<and>
   unwrap_depth (js ''ab$$widget7 c$$d'') \<le> length (js ''ab$$widget7 c$$d'') \<and>
   unwrapWidgetSyntax (js ''ab$$widget7 c$$d'') = js ''ab'' @ unwrapWidgetSyntax (js ''cd'')"
proof -
  have s: "search reWidgetPrefix (js ''ab$$widget7 c$$d'') = Some 2"
    by code_simp
  have r: "replace_str (js ''$$'') []
             (replace_re reWidgetPrefix [] (drop 2 (js ''ab$$widget7 c$$d''))) = js ''cd''"
    by code_simp
  have k: "take 2 (js ''ab$$widget7 c$$d'') = js ''ab''"
    by code_simp
  from unwrap_recursion_bounded [of "js ''ab$$widget7 c$$d''"] s r k
  show ?thesis by simp
qed

section \<open>The documented scenarios\<close>

text \<open>
  C6. \<open>createWidgetContent("widget0", "a$$b")\<close> is the open marker \<open>$$widget0\<close> and a
  space, then \<open>a$\<close>, the zero-width space U+200B, \<open>$b\<close>, and the closing \<open>$$\<close>;
  \<open>unwrapWidgetSyntax\<close> of that string is \<open>a$\<close>, U+200B, \<open>$b\<close>: the zero-width space
  stays, the open marker and the closing delimiter are gone.
\<close>

theorem escape_scenario:
  "createWidgetContent (js ''widget0'') (js ''a$$b'')
     = js ''$$widget0 a$'' @ [ZWSP] @ js ''$b$$'' \<and>
   unwrapWidgetSyntax (js ''$$widget0 a$'' @ [ZWSP] @ js ''$b$$'')
     = js ''a$'' @ [ZWSP] @ js ''$b''"
  by code_simp

text \<open>
  C4. With the registry holding the two rules \<open>/\$\S+/\<close> and \<open>/#\S+/\<close> in that order,
  \<open>createNodesWithWidget("$test plain text #test", schema, 0)\<close> returns three nodes: the
  widget node of \<open>widget0\<close> with the encoded \<open>$test\<close>, the text node
  \<open> plain text \<close> and the widget node of \<open>widget1\<close> with the encoded \<open>#test\<close>.
\<close>

theorem segmentation_scenario:
  "createNodesWithWidget
     (setWidgetRules [\<lparr>rule = dollar_word, toDOM = f\<rparr>, \<lparr>rule = hash_word, toDOM = g\<rparr>]
        initial_registry)
     (js ''$test plain text #test'') 0
   = Some (Inr [WidgetNode (js ''widget0'')
                  (TextNode (createWidgetContent (js ''widget0'') (js ''$test''))),
                TextNode (js '' plain text ''),
                WidgetNode (js ''widget1'')
                  (TextNode (createWidgetContent (js ''widget1'') (js ''#test'')))])"
  by code_simp

section \<open>Round trip of the codec\<close>

lemma replaceAll_str_absent:
  "pat \<noteq> [] \<Longrightarrow> index_of pat c = None \<Longrightarrow> replaceAll_str pat rep c = c"
  by (subst replaceAll_str.simps) simp

lemma match_digits_space:
  assumes "ds \<noteq> []" and "\<forall>d\<in>set ds. is_digit d"
  shows "match_here [(Digit, Plus), (Space, One)] (ds @ 32 # rest) = Some (Suc (length ds))"
  using assms
proof (induction ds rule: list_nonempty_induct)
  case (single d)
  then show ?case by (simp add: is_digit_def is_space_def)
next
  case (cons d ds)
  then show ?case by simp
qed

lemma take_whole_prefix: "n = length xs \<Longrightarrow> take n (xs @ ys) = xs"
  by simp

lemma match_marker:
  assumes "ds \<noteq> []" and "\<forall>d\<in>set ds. is_digit d"
  shows "reWidgetPrefix (js ''$$widget'' @ ds @ 32 # rest)
           = Some (0, js ''$$widget'' @ ds @ [32])"
proof -
  let ?rs = "map (\<lambda>c. (Lit c, One)) (js ''$$widget'') @ [(Digit, Plus), (Space, One)]"
  have "match_here ?rs (js ''$$widget'' @ ds @ 32 # rest) = Some (8 + Suc (length ds))"
    using match_digits_space [OF assms, of rest] by (simp add: js_def)
  from re_exec_here [OF this]
  have "re_exec ?rs (js ''$$widget'' @ ds @ 32 # rest)
          = Some (0, take (8 + Suc (length ds)) (js ''$$widget'' @ ds @ 32 # rest))" .
  moreover have "take (8 + Suc (length ds)) (js ''$$widget'' @ ds @ 32 # rest)
                   = js ''$$widget'' @ ds @ [32]"
  proof -
    have "8 + Suc (length ds) = length (js ''$$widget'' @ ds @ [32])"
      by (simp add: js_def)
    moreover have "js ''$$widget'' @ ds @ 32 # rest = (js ''$$widget'' @ ds @ [32]) @ rest"
      by simp
    ultimately show ?thesis
      using take_whole_prefix [of "8 + Suc (length ds)" "js ''$$widget'' @ ds @ [32]" rest]
      by (simp only:)
  qed
  ultimately show ?thesis
    unfolding reWidgetPrefix_def by (simp only:)
qed

lemma replace_str_closing:
  "index_of [d, d] c = None \<Longrightarrow> replace_str [d, d] [] (c @ [d, d]) = c"
proof (induction c)
  case Nil
  then show ?case by (simp add: replace_str_def)
next
  case (Cons x xs)
  then have np: "\<not> prefix [d, d] (x # xs)" and tl: "index_of [d, d] xs = None"
    by (auto split: if_splits)
  show ?case
  proof (cases "prefix [d, d] (x # xs @ [d, d])")
    case True
    with np have "xs = []" "x = d" by (cases xs; auto)+
    then show ?thesis by (simp add: replace_str_def)
  next
    case False
    with Cons.IH [OF tl] show ?thesis
      by (auto simp: replace_str_def split: option.splits)
  qed
qed

lemma no_delim_no_match:
  "index_of [d, d] c = None \<Longrightarrow> re_exec ((Lit d, One) # (Lit d, One) # rs) c = None"
proof (induction c)
  case Nil
  then show ?case by simp
next
  case (Cons x xs)
  then have np: "\<not> prefix [d, d] (x # xs)" and tl: "index_of [d, d] xs = None"
    by (auto split: if_splits)
  from np have "match_here ((Lit d, One) # (Lit d, One) # rs) (x # xs) = None"
    by (cases xs) auto
  with Cons.IH [OF tl] show ?case by simp
qed

lemma no_delim_no_marker:
  "index_of (js ''$$'') c = None \<Longrightarrow> search reWidgetPrefix c = None"
  using no_delim_no_match [of 36 c]
  by (simp add: search_def reWidgetPrefix_def js_def)

text \<open>
  C5. Round trip of the codec: for an id \<open>widget\<close> followed by one or more digits and a
  content \<open>c\<close> in which \<open>$$\<close> does not occur, decoding the encoded content gives
  back \<open>c\<close>.
\<close>

theorem codec_round_trip:
  assumes "ds \<noteq> []" and "\<forall>d\<in>set ds. is_digit d"
    and "index_of (js ''$$'') c = None"
  shows "unwrapWidgetSyntax (createWidgetContent (js ''widget'' @ ds) c) = c"
proof -
  let ?enc = "js ''$$widget'' @ ds @ 32 # (c @ js ''$$'')"
  have enc: "createWidgetContent (js ''widget'' @ ds) c = ?enc"
    using assms(3) by (simp add: createWidgetContent_def replaceAll_str_absent js_def)
  have m: "reWidgetPrefix ?enc = Some (0, js ''$$widget'' @ ds @ [32])"
    using assms(1,2) by (rule match_marker)
  then have s: "search reWidgetPrefix ?enc = Some 0"
    by (simp add: search_def)
  have "replace_re reWidgetPrefix [] (drop 0 ?enc) = c @ js ''$$''"
    using m by (simp add: replace_re_def)
  moreover have "replace_str (js ''$$'') [] (c @ js ''$$'') = c"
    using replace_str_closing [of 36 c] assms(3) by (simp add: js_def)
  ultimately have "unwrapWidgetSyntax ?enc = unwrapWidgetSyntax c"
    using unwrap_marker [OF s] by simp
  also have "\<dots> = c"
    using assms(3) by (simp add: no_delim_no_marker unwrap_no_marker)
  finally show ?thesis by (simp add: enc)
qed

theorem codec_round_trip_witness:
  "js ''12'' \<noteq> [] \<and> list_all is_digit (js ''12'') \<and> index_of (js ''$$'') (js ''a$b$'') = None \<and>
   unwrapWidgetSyntax (createWidgetContent (js ''widget12'') (js ''a$b$'')) = js ''a$b$''"
proof -
  have d: "\<forall>d\<in>set (js ''12''). is_digit d" by (simp add: js_def is_digit_def)
  have n: "js ''12'' \<noteq> []" by (simp add: js_def)
  have c: "index_of (js ''$$'') (js ''a$b$'') = None" by code_simp
  have w: "js ''widget'' @ js ''12'' = js ''widget12''" by (simp add: js_def)
  from codec_round_trip [OF n d c] d n c w show ?thesis
    by (simp add: list_all_iff)
qed

section \<open>Decoding encoded content twice\<close>

lemma guarded_weaken: "guarded g s \<Longrightarrow> (g \<Longrightarrow> g') \<Longrightarrow> guarded g' s"
  by (cases s) auto

lemma guarded_drop: "guarded g s \<Longrightarrow> guarded True (drop k s)"
proof (induction s arbitrary: g k)
  case Nil
  then show ?case by simp
next
  case (Cons x xs)
  show ?case
  proof (cases k)
    case 0
    with Cons.prems show ?thesis by (auto intro: guarded_weaken)
  next
    case (Suc k')
    with Cons.prems Cons.IH [of "x = ZWSP" k'] show ?thesis by simp
  qed
qed

lemma marker_starts:
  "match_here marker_regex v \<noteq> None \<Longrightarrow> \<exists>v'. v = 36 # 36 # 119 # v'"
proof -
  assume a: "match_here marker_regex v \<noteq> None"
  then obtain x1 v1 where v: "v = x1 # v1" by (cases v) (auto simp: js_def)
  with a obtain x2 v2 where v1: "v1 = x2 # v2" by (cases v1) (auto simp: js_def split: if_splits)
  with a v obtain x3 v3 where v2: "v2 = x3 # v3"
    by (cases v2) (auto simp: js_def split: if_splits)
  with a v v1 show ?thesis by (auto simp: js_def split: if_splits)
qed

lemma replace_delim_Cons:
  "replace_str [d, d] [] (x # xs)
     = (if prefix [d, d] (x # xs) then drop 2 (x # xs) else x # replace_str [d, d] [] xs)"
  by (auto simp: replace_str_def split: option.splits)

lemma replace_delim_head:
  "\<not> prefix [d] xs \<Longrightarrow> \<not> prefix [d] (replace_str [d, d] [] xs)"
  by (cases xs) (auto simp: replace_str_def split: option.splits)

lemma guarded_replace:
  "guarded g u \<Longrightarrow> guarded g (replace_str (js ''$$'') [] u)"
proof (induction u arbitrary: g)
  case Nil
  then show ?case by (simp add: replace_str_def js_def)
next
  case (Cons x xs)
  show ?case
  proof (cases "prefix [36, 36] (x # xs)")
    case True
    then obtain b where xs: "xs = 36 # b" and x: "x = 36" by (cases xs) auto
    from Cons.prems xs x have "guarded False b" by (simp add: ZWSP_def)
    then have "guarded g b" by (rule guarded_weaken) simp
    with True xs x show ?thesis by (simp add: replace_delim_Cons js_def)
  next
    case False
    let ?r = "replace_str [36, 36] [] xs"
    have tl: "guarded (x = ZWSP) ?r"
      using Cons.IH [of "x = ZWSP"] Cons.prems by (simp add: js_def)
    have hd: "match_here marker_regex (x # ?r) \<noteq> None \<longrightarrow> g"
    proof
      assume m: "match_here marker_regex (x # ?r) \<noteq> None"
      from marker_starts [OF m] have x: "x = 36" and p: "prefix [36] ?r" by auto
      from p replace_delim_head [of 36 xs] have "prefix [36] xs" by blast
      with x False show g by (cases xs) auto
    qed
    have "replace_str (js ''$$'') [] (x # xs) = x # ?r"
      using False by (auto simp: replace_delim_Cons js_def)
    with tl hd show ?thesis by (simp only: guarded.simps)
  qed
qed

lemma junction_local:
  assumes "\<forall>(c, q)\<in>set rs. \<not> in_class c z" and "z \<in> set p"
    and "match_here rs (p @ r) \<noteq> None"
  shows "match_here rs (p @ r') \<noteq> None"
  using assms
proof (induction p arbitrary: rs)
  case Nil
  then show ?case by simp
next
  case (Cons x p)
  show ?case
  proof (cases rs)
    case Nil
    then show ?thesis by simp
  next
    case (Cons cq rs')
    obtain c q where cq: "cq = (c, q)" by (cases cq)
    from Cons.prems(1) Cons cq have c: "\<not> in_class c z" and rest: "\<forall>(c, q)\<in>set rs'. \<not> in_class c z"
      by auto
    from Cons.prems(3) Cons cq have inx: "in_class c x"
      by (cases q) (auto split: if_splits)
    with c Cons.prems(2) have zp: "z \<in> set p" by auto
    show ?thesis
    proof (cases q)
      case One
      with Cons.prems(3) Cons cq inx have "match_here rs' (p @ r) \<noteq> None" by auto
      from Cons.IH [OF rest zp this] One Cons cq inx show ?thesis by auto
    next
      case Plus
      show ?thesis
      proof (cases "match_here ((c, Plus) # rs') (p @ r)")
        case (Some n)
        then have "match_here ((c, Plus) # rs') (p @ r) \<noteq> None" by simp
        from Cons.IH [OF _ zp this] Cons.prems(1) Cons cq Plus
        have "match_here ((c, Plus) # rs') (p @ r') \<noteq> None" by simp
        with Plus Cons cq inx show ?thesis by auto
      next
        case None
        with Cons.prems(3) Cons cq Plus inx have "match_here rs' (p @ r) \<noteq> None" by auto
        from Cons.IH [OF rest zp this] Plus Cons cq inx show ?thesis
          by (auto split: option.splits)
      qed
    qed
  qed
qed

lemma marker_excludes_zwsp: "\<forall>(c, q)\<in>set marker_regex. \<not> in_class c ZWSP"
  by (simp add: js_def ZWSP_def is_digit_def is_space_def)

lemma marker_not_empty: "match_here marker_regex [] = None"
  by (simp add: js_def)

lemma first_marker_preceded:
  "guarded g s \<Longrightarrow> re_exec marker_regex s = Some (i, m) \<Longrightarrow> 0 < i \<Longrightarrow>
     take i s \<noteq> [] \<and> last (take i s) = ZWSP"
proof (induction s arbitrary: g i)
  case Nil
  then show ?case by (simp add: js_def)
next
  case (Cons x xs)
  from Cons.prems(2,3) obtain i' where i': "re_exec marker_regex xs = Some (i', m)" "i = Suc i'"
    by (auto split: option.splits)
  from Cons.prems(1) have g: "guarded (x = ZWSP) xs" by simp
  show ?case
  proof (cases i')
    case 0
    with re_exec_Some [OF i'(1)] have m: "match_here marker_regex xs \<noteq> None" by auto
    with marker_not_empty obtain y ys where "xs = y # ys" by (cases xs) auto
    with g m have "x = ZWSP" by auto
    with i'(2) 0 show ?thesis by simp
  next
    case (Suc k)
    with Cons.IH [OF g i'(1)] have "take i' xs \<noteq> [] \<and> last (take i' xs) = ZWSP" by simp
    with i'(2) show ?thesis by simp
  qed
qed

lemma junction_no_marker:
  "guarded g s \<Longrightarrow> re_exec marker_regex s = Some (i, m) \<Longrightarrow>
   re_exec marker_regex r = None \<Longrightarrow> re_exec marker_regex (take i s @ r) = None"
proof (induction s arbitrary: g i)
  case Nil
  then show ?case by simp
next
  case (Cons x xs)
  show ?case
  proof (cases "match_here marker_regex (x # xs)")
    case (Some n)
    with Cons.prems(2) have "i = 0" by simp
    with Cons.prems(3) show ?thesis by simp
  next
    case None
    with Cons.prems(2) obtain i' where i': "re_exec marker_regex xs = Some (i', m)" "i = Suc i'"
      by auto
    from Cons.prems(1) have g: "guarded (x = ZWSP) xs" by simp
    have tl: "re_exec marker_regex (take i' xs @ r) = None"
      using Cons.IH [OF g i'(1) Cons.prems(3)] .
    have hd: "match_here marker_regex (x # take i' xs @ r) = None"
    proof (rule ccontr)
      assume "match_here marker_regex (x # take i' xs @ r) \<noteq> None"
      then have m: "match_here marker_regex ((x # take i' xs) @ r) \<noteq> None" by simp
      from first_marker_preceded [OF Cons.prems(1,2)] i'(2)
      have "ZWSP \<in> set (x # take i' xs)"
        by (metis last_in_set take_Suc_Cons zero_less_Suc)
      from junction_local [OF marker_excludes_zwsp this m, of "drop i' xs"]
      have "match_here marker_regex (x # xs) \<noteq> None" by simp
      with None show False by simp
    qed
    from hd tl i'(2) show ?thesis by simp
  qed
qed

lemma guarded_unwrap_no_marker:
  "guarded True s \<Longrightarrow> search reWidgetPrefix (unwrapWidgetSyntax s) = None"
proof (induction s rule: unwrapWidgetSyntax.induct)
  case (1 t)
  show ?case
  proof (cases "search reWidgetPrefix t")
    case None
    then show ?thesis by (simp add: unwrap_no_marker)
  next
    case (Some index)
    let ?rest = "drop index t"
    let ?replaced = "replace_str (js ''$$'') [] (replace_re reWidgetPrefix [] ?rest)"
    from Some obtain m where ex: "re_exec marker_regex t = Some (index, m)"
      by (auto simp: search_def reWidgetPrefix_def)
    from re_exec_drop [OF ex]
    have "replace_re reWidgetPrefix [] ?rest = drop (length m) ?rest"
      by (simp add: replace_re_def reWidgetPrefix_def)
    moreover have "guarded True (drop (length m) ?rest)"
      using guarded_drop [OF guarded_drop [OF "1.prems"]] .
    ultimately have "guarded True ?replaced"
      by (simp add: guarded_replace)
    from "1.IH" [OF Some refl refl this]
    have "re_exec marker_regex (unwrapWidgetSyntax ?replaced) = None"
      by (simp add: search_def reWidgetPrefix_def)
    from junction_no_marker [OF "1.prems" ex this] unwrap_marker [OF Some]
    show ?thesis by (simp add: search_def reWidgetPrefix_def)
  qed
qed

lemma delim_guarded_weaken: "delim_guarded g s \<Longrightarrow> (g \<Longrightarrow> g') \<Longrightarrow> delim_guarded g' s"
  by (cases s) auto

lemma delim_guarded_absent: "index_of [36, 36] c = None \<Longrightarrow> delim_guarded g c"
  by (induction c arbitrary: g) (auto simp: js_def split: if_splits)

lemma delim_guarded_escape:
  "delim_guarded False t \<Longrightarrow> delim_guarded g ([DOLLAR, ZWSP, DOLLAR] @ t)"
  by (simp add: js_def DOLLAR_def ZWSP_def)

lemma delim_guarded_before:
  "index_of [36, 36] c = Some j \<Longrightarrow> delim_guarded False t \<Longrightarrow>
     delim_guarded g (take j c @ [DOLLAR, ZWSP, DOLLAR] @ t)"
proof (induction c arbitrary: j g)
  case Nil
  then show ?case by simp
next
  case (Cons x xs)
  show ?case
  proof (cases "prefix [36, 36] (x # xs)")
    case True
    with Cons.prems(1) have "j = 0" by simp
    with delim_guarded_escape [OF Cons.prems(2), of g] show ?thesis by (simp only: take_0 append_Nil)
  next
    case False
    with Cons.prems(1) obtain j' where j': "index_of [36, 36] xs = Some j'" "j = Suc j'"
      by auto
    let ?w = "take j' xs @ [DOLLAR, ZWSP, DOLLAR] @ t"
    have tl: "delim_guarded (x = ZWSP) ?w"
      using Cons.IH [OF j'(1) Cons.prems(2)] .
    have hd: "\<not> prefix [36, 36] (x # ?w)"
    proof
      assume p: "prefix [36, 36] (x # ?w)"
      then have x: "x = 36" and w: "prefix [36] ?w" by auto
      show False
      proof (cases j')
        case 0
        with j'(1) have "prefix [36, 36] xs" by (cases xs) (auto split: if_splits)
        with x False show False by (cases xs) auto
      next
        case (Suc k)
        with j'(1) obtain y ys where "xs = y # ys" by (cases xs) auto
        with Suc w x False show False by auto
      qed
    qed
    from hd tl j'(2) show ?thesis by (auto simp: js_def)
  qed
qed

lemma delim_guarded_safe:
  "delim_guarded False (replaceAll_str (js ''$$'') [DOLLAR, ZWSP, DOLLAR] c)"
proof (induction "length c" arbitrary: c rule: less_induct)
  case less
  show ?case
  proof (cases "index_of [36, 36] c")
    case None
    then have "replaceAll_str (js ''$$'') [DOLLAR, ZWSP, DOLLAR] c = c"
      by (subst replaceAll_str.simps) (simp add: js_def)
    with delim_guarded_absent [OF None] show ?thesis by simp
  next
    case (Some j)
    from index_of_bound [OF Some] have "length (drop (j + 2) c) < length c" by simp
    from less [OF this]
    have "delim_guarded False (replaceAll_str (js ''$$'') [DOLLAR, ZWSP, DOLLAR] (drop (j + 2) c))" .
    from delim_guarded_before [OF Some this, of False] Some show ?thesis
      by (subst replaceAll_str.simps) (simp add: js_def)
  qed
qed

lemma guarded_closing: "delim_guarded g t \<Longrightarrow> guarded g (t @ js ''$$'')"
proof (induction t arbitrary: g)
  case Nil
  then show ?case by (simp add: js_def)
next
  case (Cons x xs)
  have hd: "match_here marker_regex (x # xs @ js ''$$'') \<noteq> None \<longrightarrow> g"
  proof
    assume "match_here marker_regex (x # xs @ js ''$$'') \<noteq> None"
    from marker_starts [OF this] obtain v where v: "x = 36" "xs @ js ''$$'' = 36 # 119 # v"
      by auto
    then have "prefix [36] xs" by (cases xs) (auto simp: js_def)
    with v(1) Cons.prems show g by (cases xs) (auto simp: js_def)
  qed
  from Cons.prems have "delim_guarded (x = ZWSP) xs" by simp
  from Cons.IH [OF this] hd show ?case by simp
qed

lemma unwrap_encoded:
  assumes "ds \<noteq> []" and "\<forall>d\<in>set ds. is_digit d"
  shows "unwrapWidgetSyntax (createWidgetContent (js ''widget'' @ ds) c)
           = unwrapWidgetSyntax
               (replace_str (js ''$$'') []
                  (replaceAll_str (js ''$$'') [DOLLAR, ZWSP, DOLLAR] c @ js ''$$''))"
proof -
  let ?safe = "replaceAll_str (js ''$$'') [DOLLAR, ZWSP, DOLLAR] c"
  let ?enc = "js ''$$widget'' @ ds @ 32 # (?safe @ js ''$$'')"
  have enc: "createWidgetContent (js ''widget'' @ ds) c = ?enc"
    by (simp add: createWidgetContent_def js_def)
  have m: "reWidgetPrefix ?enc = Some (0, js ''$$widget'' @ ds @ [32])"
    using assms by (rule match_marker)
  then have s: "search reWidgetPrefix ?enc = Some 0"
    by (simp add: search_def)
  have "replace_re reWidgetPrefix [] (drop 0 ?enc) = ?safe @ js ''$$''"
    using m by (simp add: replace_re_def)
  with unwrap_marker [OF s] show ?thesis by (simp add: enc)
qed

lemma encoded_no_marker:
  assumes "ds \<noteq> []" and "\<forall>d\<in>set ds. is_digit d"
  shows "search reWidgetPrefix
           (unwrapWidgetSyntax (createWidgetContent (js ''widget'' @ ds) c)) = None"
proof -
  let ?safe = "replaceAll_str (js ''$$'') [DOLLAR, ZWSP, DOLLAR] c"
  have "guarded False (?safe @ js ''$$'')"
    using delim_guarded_safe by (rule guarded_closing)
  then have "guarded True (?safe @ js ''$$'')"
    by (rule guarded_weaken) simp
  then have "guarded True (replace_str (js ''$$'') [] (?safe @ js ''$$''))"
    by (rule guarded_replace)
  from guarded_unwrap_no_marker [OF this] show ?thesis
    by (simp add: unwrap_encoded [OF assms])
qed

text \<open>
  C1, as the code has it. On everything the encoder produces for an id \<open>widget\<close>
  followed by digits, whatever the content, one pass of \<open>unwrapWidgetSyntax\<close> leaves
  no widget-open marker and a second pass changes nothing. For an arbitrary string the
  two conditions are still equivalent to each other, but one pass does not establish
  them.
\<close>

theorem unwrap_idempotent_on_encoded:
  assumes "ds \<noteq> []" and "\<forall>d\<in>set ds. is_digit d"
  shows "unwrapWidgetSyntax (unwrapWidgetSyntax (createWidgetContent (js ''widget'' @ ds) c))
           = unwrapWidgetSyntax (createWidgetContent (js ''widget'' @ ds) c) \<and>
         search reWidgetPrefix
           (unwrapWidgetSyntax (createWidgetContent (js ''widget'' @ ds) c)) = None \<and>
         ((unwrapWidgetSyntax (unwrapWidgetSyntax x) = unwrapWidgetSyntax x)
            = (search reWidgetPrefix (unwrapWidgetSyntax x) = None))"
proof -
  have n: "search reWidgetPrefix
             (unwrapWidgetSyntax (createWidgetContent (js ''widget'' @ ds) c)) = None"
    using assms by (rule encoded_no_marker)
  have "(unwrapWidgetSyntax (unwrapWidgetSyntax x) = unwrapWidgetSyntax x)
            = (search reWidgetPrefix (unwrapWidgetSyntax x) = None)"
  proof (cases "search reWidgetPrefix (unwrapWidgetSyntax x)")
    case None
    then show ?thesis by (simp add: unwrap_no_marker)
  next
    case (Some index)
    from unwrap_shorter [OF Some] show ?thesis using Some by auto
  qed
  with n unwrap_no_marker [OF n] show ?thesis by simp
qed

theorem unwrap_idempotent_on_encoded_witness:
  "createWidgetContent (js ''widget0'') (js ''$$$widget1 x$$'')
     = js ''$$widget0 $'' @ [ZWSP] @ js ''$$widget1 x$'' @ [ZWSP] @ js ''$$$'' \<and>
   unwrapWidgetSyntax (createWidgetContent (js ''widget0'') (js ''$$$widget1 x$$''))
     = js ''$'' @ [ZWSP] @ js ''widget1 x$'' @ [ZWSP] @ js ''$$$'' \<and>
   unwrapWidgetSyntax (unwrapWidgetSyntax (createWidgetContent (js ''widget0'') (js ''$$$widget1 x$$'')))
     = unwrapWidgetSyntax (createWidgetContent (js ''widget0'') (js ''$$$widget1 x$$''))"
proof -
  have d: "\<forall>d\<in>set (js ''0''). is_digit d" by (simp add: js_def is_digit_def)
  have n: "js ''0'' \<noteq> []" by (simp add: js_def)
  have w: "js ''widget'' @ js ''0'' = js ''widget0''" by (simp add: js_def)
  have e: "createWidgetContent (js ''widget0'') (js ''$$$widget1 x$$'')
     = js ''$$widget0 $'' @ [ZWSP] @ js ''$$widget1 x$'' @ [ZWSP] @ js ''$$$''"
    by code_simp
  have u: "unwrapWidgetSyntax (createWidgetContent (js ''widget0'') (js ''$$$widget1 x$$''))
     = js ''$'' @ [ZWSP] @ js ''widget1 x$'' @ [ZWSP] @ js ''$$$''"
    by code_simp
  from unwrap_idempotent_on_encoded [OF n d, of "js ''$$$widget1 x$$''"] w
  have "unwrapWidgetSyntax (unwrapWidgetSyntax (createWidgetContent (js ''widget0'') (js ''$$$widget1 x$$'')))
     = unwrapWidgetSyntax (createWidgetContent (js ''widget0'') (js ''$$$widget1 x$$''))"
    by simp
  with e u show ?thesis by (simp only:)
qed

text \<open>
  The claim C1 fails at \<open>$$$widget0 $widget1 \<close> (with its final space). The first
  marker starts at index 1; the \<open>$\<close> kept before it and the \<open>$widget1 \<close> left after
  it join into a new marker \<open>$$widget1 \<close>, which a second pass removes.
\<close>

theorem unwrap_not_idempotent:
  "unwrapWidgetSyntax (unwrapWidgetSyntax (js ''$$$widget0 $widget1 ''))
     \<noteq> unwrapWidgetSyntax (js ''$$$widget0 $widget1 '') \<and>
   search reWidgetPrefix (unwrapWidgetSyntax (js ''$$$widget0 $widget1 '')) \<noteq> None"
  by code_simp

section \<open>Properties of the registry\<close>

lemma unat_small: "m < 65536 \<Longrightarrow> unat (of_nat m :: 16 word) = m"
  by (simp add: unat_of_nat)

lemma show_nat_value: "foldl (\<lambda>acc c. 10 * acc + (unat c - 48)) 0 (show_nat n) = n"
proof (induction n rule: show_nat.induct)
  case (1 n)
  show ?case
  proof (cases "n < 10")
    case True
    then have "unat (of_nat (48 + n) :: 16 word) = 48 + n"
      by (intro unat_small) simp
    with True show ?thesis by (subst show_nat.simps) simp
  next
    case False
    have "n mod 10 < 10" by simp
    then have "unat (of_nat (48 + n mod 10) :: 16 word) = 48 + n mod 10"
      by (intro unat_small) simp
    with False 1 show ?thesis by (subst show_nat.simps) simp
  qed
qed

lemma widget_id_inj: "widget_id i = widget_id j \<Longrightarrow> i = j"
proof -
  assume "widget_id i = widget_id j"
  then have "show_nat i = show_nat j" by (simp add: widget_id_def)
  then have "foldl (\<lambda>acc c. 10 * acc + (unat c - 48)) 0 (show_nat i)
           = foldl (\<lambda>acc c. 10 * acc + (unat c - 48)) 0 (show_nat j)" by simp
  then show "i = j" by (simp only: show_nat_value)
qed

lemma fold_rule_map:
  "fold (\<lambda>(index, r) m. m(widget_id index \<mapsto> r)) (enumerate k rs) m0 (widget_id i)
     = (if k \<le> i \<and> i < k + length rs then Some (rs ! (i - k)) else m0 (widget_id i))"
proof (induction rs arbitrary: k m0)
  case Nil
  then show ?case by auto
next
  case (Cons r rs)
  let ?f = "\<lambda>(index, r) m. m(widget_id index \<mapsto> r)"
  have "fold ?f (enumerate k (r # rs)) m0 (widget_id i)
          = fold ?f (enumerate (Suc k) rs) (m0(widget_id k \<mapsto> r)) (widget_id i)"
    by simp
  also have "\<dots> = (if Suc k \<le> i \<and> i < Suc k + length rs then Some (rs ! (i - Suc k))
                    else (m0(widget_id k \<mapsto> r)) (widget_id i))"
    by (rule Cons.IH)
  also have "\<dots> = (if k \<le> i \<and> i < k + length (r # rs) then Some ((r # rs) ! (i - k))
                    else m0 (widget_id i))"
  proof (cases "i = k")
    case True
    then show ?thesis by simp
  next
    case False
    then have "widget_id i \<noteq> widget_id k" by (auto dest: widget_id_inj)
    show ?thesis
    proof (cases "k < i")
      case True
      then obtain d where d: "i = Suc (k + d)"
        using less_imp_Suc_add by blast
      then show ?thesis using \<open>widget_id i \<noteq> widget_id k\<close> by simp
    next
      case False
      with \<open>i \<noteq> k\<close> \<open>widget_id i \<noteq> widget_id k\<close> show ?thesis by simp
    qed
  qed
  finally show ?case .
qed

lemma map_after_set:
  "widgetRuleMap (setWidgetRules rules st) (widget_id i)
     = (if i < length rules then Some (rules ! i) else widgetRuleMap st (widget_id i))"
  by (simp add: setWidgetRules_def fold_rule_map)

text \<open>
  C3, as the code has it. \<open>setWidgetRules\<close> replaces the rule list and overwrites the
  entries \<open>widget<j>\<close> for the indices \<open>j\<close> of the new list; it does not clear the
  map. After \<open>setWidgetRules(rs1)\<close> and then \<open>setWidgetRules(rs2)\<close>, for every index
  \<open>i\<close> with \<open>length rs2 \<le> i < length rs1\<close> the id \<open>widget<i>\<close> still maps to
  \<open>rs1[i]\<close>, and \<open>widgetToDOM\<close> on that id does not throw: it dispatches to \<open>rs1[i]\<close>.
\<close>

theorem stale_rules_dispatch:
  assumes "length rs2 \<le> i" and "i < length rs1"
  shows "widgetRules (setWidgetRules rs2 (setWidgetRules rs1 st)) = rs2 \<and>
         (\<forall>j<length rs2.
            widgetRuleMap (setWidgetRules rs2 (setWidgetRules rs1 st)) (widget_id j)
              = Some (rs2 ! j)) \<and>
         widgetRuleMap (setWidgetRules rs2 (setWidgetRules rs1 st)) (widget_id i)
           = Some (rs1 ! i) \<and>
         widgetToDOM (setWidgetRules rs2 (setWidgetRules rs1 st)) (widget_id i) t
           = (case match (rule (rs1 ! i)) (unwrapWidgetSyntax t) of
                Some m \<Rightarrow> Inr (toDOM (rs1 ! i) m)
              | None \<Rightarrow> Inr (toDOM (rs1 ! i) t))"
proof -
  let ?st = "setWidgetRules rs2 (setWidgetRules rs1 st)"
  have stale: "widgetRuleMap ?st (widget_id i) = Some (rs1 ! i)"
    using assms by (simp add: map_after_set)
  have "widgetRules ?st = rs2"
    by (simp add: setWidgetRules_def)
  moreover have "\<forall>j<length rs2. widgetRuleMap ?st (widget_id j) = Some (rs2 ! j)"
    by (simp add: map_after_set)
  moreover have "widgetToDOM ?st (widget_id i) t
           = (case match (rule (rs1 ! i)) (unwrapWidgetSyntax t) of
                Some m \<Rightarrow> Inr (toDOM (rs1 ! i) m)
              | None \<Rightarrow> Inr (toDOM (rs1 ! i) t))"
    by (simp add: widgetToDOM_def stale)
  ultimately show ?thesis using stale by blast
qed

theorem stale_rules_dispatch_witness:
  "widgetToDOM
     (setWidgetRules [\<lparr>rule = dollar_word, toDOM = (\<lambda>t. js ''C'' @ t)\<rparr>]
        (setWidgetRules [\<lparr>rule = dollar_word, toDOM = (\<lambda>t. js ''A'' @ t)\<rparr>,
                         \<lparr>rule = hash_word, toDOM = (\<lambda>t. js ''B'' @ t)\<rparr>]
           initial_registry))
     (widget_id 1) (js ''#x'')
   = Inr (js ''B#x'')"
proof -
  let ?rs1 = "[\<lparr>rule = dollar_word, toDOM = (\<lambda>t. js ''A'' @ t)\<rparr>,
               \<lparr>rule = hash_word, toDOM = (\<lambda>t. js ''B'' @ t)\<rparr>]"
  let ?rs2 = "[\<lparr>rule = dollar_word, toDOM = (\<lambda>t. js ''C'' @ t)\<rparr>]"
  have a: "length ?rs2 \<le> 1" and b: "1 < length ?rs1" by simp_all
  have m: "match hash_word (unwrapWidgetSyntax (js ''#x'')) = Some (js ''#x'')"
    by code_simp
  from stale_rules_dispatch [OF a b, of initial_registry "js ''#x''"] m
  show ?thesis by (simp add: js_def)
qed

text \<open>
  The claim C3 fails for the lists \<open>[a, b]\<close> and then \<open>[c]\<close>: the id \<open>widget1\<close> is
  still in the map, and \<open>widgetToDOM\<close> returns what the conversion function of \<open>b\<close>
  makes of the text.
\<close>

theorem stale_rule_not_cleared:
  "widgetToDOM
     (setWidgetRules [\<lparr>rule = dollar_word, toDOM = (\<lambda>t. js ''C'' @ t)\<rparr>]
        (setWidgetRules [\<lparr>rule = dollar_word, toDOM = (\<lambda>t. js ''A'' @ t)\<rparr>,
                         \<lparr>rule = hash_word, toDOM = (\<lambda>t. js ''B'' @ t)\<rparr>]
           initial_registry))
     (js ''widget1'') (js ''#x'')
   = Inr (js ''B#x'') \<and>
   widgetRuleMap
     (setWidgetRules [\<lparr>rule = dollar_word, toDOM = (\<lambda>t. js ''C'' @ t)\<rparr>]
        (setWidgetRules [\<lparr>rule = dollar_word, toDOM = (\<lambda>t. js ''A'' @ t)\<rparr>,
                         \<lparr>rule = hash_word, toDOM = (\<lambda>t. js ''B'' @ t)\<rparr>]
           initial_registry))
     (js ''widget1'') \<noteq> None"
  by code_simp

text \<open>
  C2, as the code has it. For an id registered in the map and a text in whose decoded
  form the pattern of the rule has no match, \<open>widgetToDOM\<close> calls the conversion
  function with the text it was given, still encoded: only a match reassigns \<open>text\<close>.
\<close>

theorem widgetToDOM_no_match:
  assumes "widgetRuleMap st info = Some r"
    and "match (rule r) (unwrapWidgetSyntax t) = None"
  shows "widgetToDOM st info t = Inr (toDOM r t)"
  using assms by (simp add: widgetToDOM_def)

text \<open>
  The claim C2 fails for the rule \<open>/#\S+/\<close> with the identity as conversion function
  and the text \<open>$$widget0 abc$$\<close>: the decoded text is \<open>abc\<close>, the pattern does not
  match it, and the conversion function receives \<open>$$widget0 abc$$\<close>.
\<close>

theorem widgetToDOM_passes_encoded_text:
  "match hash_word (unwrapWidgetSyntax (js ''$$widget0 abc$$'')) = None \<and>
   unwrapWidgetSyntax (js ''$$widget0 abc$$'') = js ''abc'' \<and>
   widgetToDOM (setWidgetRules [\<lparr>rule = hash_word, toDOM = (\<lambda>t. t)\<rparr>] initial_registry)
     (js ''widget0'') (js ''$$widget0 abc$$'') = Inr (js ''$$widget0 abc$$'') \<and>
   widgetToDOM (setWidgetRules [\<lparr>rule = hash_word, toDOM = (\<lambda>t. t)\<rparr>] initial_registry)
     (js ''widget0'') (js ''$$widget0 abc$$'')
     \<noteq> Inr (unwrapWidgetSyntax (js ''$$widget0 abc$$''))"
  by code_simp

theorem widgetToDOM_no_match_witness:
  "widgetToDOM (setWidgetRules [\<lparr>rule = hash_word, toDOM = (\<lambda>t. js ''<'' @ t)\<rparr>] initial_registry)
     (js ''widget0'') (js ''$$widget0 abc$$'') = Inr (js ''<$$widget0 abc$$'')"
proof -
  let ?r = "\<lparr>rule = hash_word, toDOM = (\<lambda>t. js ''<'' @ t)\<rparr>"
  have a: "widgetRuleMap (setWidgetRules [?r] initial_registry) (js ''widget0'') = Some ?r"
    by (simp add: setWidgetRules_def initial_registry_def widget_id_def show_nat.simps js_def)
  have b: "match (rule ?r) (unwrapWidgetSyntax (js ''$$widget0 abc$$'')) = None"
    by code_simp
  from widgetToDOM_no_match [OF a b] show ?thesis by (simp add: js_def)
qed

section \<open>Termination of the segmentation\<close>

lemma mergeNodes_total:
  "\<exists>res. create t = Some res \<Longrightarrow> \<exists>res. mergeNodes create nodes t = Some res"
  by (auto simp: mergeNodes_def split: sum.splits)

lemma loop_progress:
  assumes "matches_nonempty re"
    and "match re (drop index s) = Some lit"
  shows "length (drop (length lit) (drop index s)) < length s"
proof -
  from assms(2) obtain j where "re (drop index s) = Some (j, lit)"
    by (auto simp: match_def)
  with assms(1) have "lit \<noteq> [] \<and> j + length lit \<le> length (drop index s)"
    unfolding matches_nonempty_def by blast
  then show ?thesis by (cases lit) auto
qed

lemma widget_loop_total:
  assumes re: "matches_nonempty re" and cr: "\<forall>t. \<exists>res. create t = Some res"
  shows "\<exists>res. widget_loop create re i t nodes = Some res"
proof (induction "length t" arbitrary: t nodes rule: less_induct)
  case less
  show ?case
  proof (cases "search re t")
    case None
    then show ?thesis by (subst widget_loop.simps) simp
  next
    case (Some index)
    let ?prev = "if take index t \<noteq> [] then mergeNodes create nodes (take index t)
                 else Some (Inr nodes)"
    from cr have "\<exists>res. ?prev = Some res"
      by (simp add: mergeNodes_total)
    then obtain res where prev: "?prev = Some res" ..
    show ?thesis
    proof (cases res)
      case (Inl e)
      with Some prev show ?thesis by (subst widget_loop.simps) simp
    next
      case (Inr nodes1)
      show ?thesis
      proof (cases "match re (drop index t)")
        case None
        with Some prev Inr show ?thesis by (subst widget_loop.simps) simp
      next
        case lit: (Some l)
        from loop_progress [OF re lit]
        have "length (drop (length l) (drop index t)) < length t" .
        from less [OF this] obtain res' where
          "widget_loop create re i (drop (length l) (drop index t))
             (nodes1 @ [WidgetNode (widget_id i)
                          (TextNode (createWidgetContent (widget_id i) l))]) = Some res'"
          by blast
        with Some prev Inr lit show ?thesis by (subst widget_loop.simps) simp
      qed
    qed
  qed
qed

lemma createNodes_total:
  assumes "\<forall>r\<in>set (widgetRules st). matches_nonempty (rule r)"
  shows "\<exists>res. createNodesWithWidget st t ruleIndex = Some res"
proof (induction "length (widgetRules st) - ruleIndex" arbitrary: ruleIndex t rule: less_induct)
  case less
  let ?txt = "unwrapWidgetSyntax t"
  let ?next = "\<lambda>t. createNodesWithWidget st t (ruleIndex + 1)"
  show ?case
  proof (cases "ruleIndex < length (widgetRules st) \<and> test (rule (widgetRules st ! ruleIndex)) ?txt")
    case True
    then have "length (widgetRules st) - (ruleIndex + 1) < length (widgetRules st) - ruleIndex"
      by arith
    from less [OF this] have nx: "\<forall>t. \<exists>res. ?next t = Some res" by simp
    from True assms have "matches_nonempty (rule (widgetRules st ! ruleIndex))" by simp
    from widget_loop_total [OF this nx]
    obtain res where lp: "widget_loop ?next (rule (widgetRules st ! ruleIndex)) ruleIndex ?txt []
                       = Some res" by blast
    show ?thesis
    proof (cases res)
      case (Inl e)
      with True lp show ?thesis
        by (subst createNodesWithWidget.simps) (simp add: Let_def)
    next
      case (Inr p)
      obtain nodes text1 where p: "p = (nodes, text1)" by (cases p)
      from nx mergeNodes_total [of ?next text1 nodes]
      obtain r2 where "mergeNodes ?next nodes text1 = Some r2" by blast
      with True lp Inr p show ?thesis
        by (subst createNodesWithWidget.simps) (simp add: Let_def)
    qed
  next
    case False
    show ?thesis
    proof (cases "?txt \<noteq> [] \<and> int ruleIndex < int (length (widgetRules st)) - 1")
      case True
      then have "length (widgetRules st) - (ruleIndex + 1) < length (widgetRules st) - ruleIndex"
        by arith
      from less [OF this] have nx: "\<exists>res. ?next ?txt = Some res" by simp
      from nx mergeNodes_total [of ?next ?txt "[]"]
      obtain r2 where "mergeNodes ?next [] ?txt = Some r2" by blast
      with False True show ?thesis
        by (subst createNodesWithWidget.simps) (simp add: Let_def)
    next
      case F2: False
      with False show ?thesis
        by (subst createNodesWithWidget.simps) (auto simp: Let_def)
    qed
  qed
qed

lemma empty_pattern_exec: "re_exec [] s = Some (0, [])"
  by (cases s) simp_all

lemma widget_loop_returns_not_empty_pattern:
  "widget_loop create re i t nodes = Some y \<Longrightarrow> re \<noteq> re_exec []"
proof (induction create re i t nodes y rule: widget_loop.raw_induct [rotated 1, consumes 1])
  case (1 loop c r k s ns y)
  show ?case
  proof
    assume e: "r = re_exec []"
    with 1(2) have "loop c r k s
              (ns @ [WidgetNode (widget_id k)
                       (TextNode (createWidgetContent (widget_id k) []))]) = Some y"
      by (simp add: search_def match_def empty_pattern_exec)
    from 1(1) [OF this] e show False by simp
  qed
qed

lemma empty_pattern_loops: "widget_loop create (re_exec []) i t nodes = None"
  using widget_loop_returns_not_empty_pattern [of create "re_exec []" i t nodes]
  by (cases "widget_loop create (re_exec []) i t nodes") auto

text \<open>
  The claim C7 fails for the empty pattern (\<open>new RegExp('')\<close>), which matches the
  empty string at index 0 of every text: \<open>literal\<close> is empty, \<open>text\<close> stays as it is,
  and the loop never ends.
\<close>

theorem empty_match_never_returns:
  "createNodesWithWidget
     (setWidgetRules [\<lparr>rule = re_exec [], toDOM = (\<lambda>t. t)\<rparr>] initial_registry) (js ''a'') 0
   = None"
  by (subst createNodesWithWidget.simps)
     (simp add: setWidgetRules_def initial_registry_def test_def empty_pattern_loops
        empty_pattern_exec Let_def)

lemma re_exec_matches_nonempty: "rs \<noteq> [] \<Longrightarrow> matches_nonempty (re_exec rs)"
  unfolding matches_nonempty_def
  using re_exec_nonempty [of rs] re_exec_bound [of rs] by blast

text \<open>
  C7, as the code has it. When every match of every registered pattern is non-empty,
  \<open>createNodesWithWidget\<close> terminates on every text and rule index (it returns nodes or
  throws), and an iteration of the inner loop that finds a match leaves a strictly
  shorter text. The code has no guard of its own for forward progress.
\<close>

theorem segmentation_terminates:
  assumes "\<forall>r\<in>set (widgetRules st). matches_nonempty (rule r)"
  shows "(\<exists>res. createNodesWithWidget st t ruleIndex = Some res) \<and>
         (\<forall>r\<in>set (widgetRules st). \<forall>s index lit.
            match (rule r) (drop index s) = Some lit \<longrightarrow>
            length (drop (length lit) (drop index s)) < length s)"
  using assms createNodes_total [of st t ruleIndex] loop_progress by blast

theorem segmentation_terminates_witness:
  "matches_nonempty dollar_word \<and> matches_nonempty hash_word \<and>
   createNodesWithWidget
     (setWidgetRules [\<lparr>rule = dollar_word, toDOM = (\<lambda>t. t)\<rparr>,
                      \<lparr>rule = hash_word, toDOM = (\<lambda>t. t)\<rparr>] initial_registry)
     (js ''a $x #y'') 0 \<noteq> None \<and>
   length (drop (length (js ''$x'')) (drop 2 (js ''a $x #y''))) < length (js ''a $x #y'')"
proof -
  let ?st = "setWidgetRules [\<lparr>rule = dollar_word, toDOM = (\<lambda>t. t)\<rparr>,
                             \<lparr>rule = hash_word, toDOM = (\<lambda>t. t)\<rparr>] initial_registry"
  have d: "matches_nonempty dollar_word"
    unfolding dollar_word_def by (rule re_exec_matches_nonempty) simp
  have h: "matches_nonempty hash_word"
    unfolding hash_word_def by (rule re_exec_matches_nonempty) simp
  have "\<forall>r\<in>set (widgetRules ?st). matches_nonempty (rule r)"
    using d h by (simp add: setWidgetRules_def)
  from segmentation_terminates [OF this, of "js ''a $x #y''" 0]
  have "createNodesWithWidget ?st (js ''a $x #y'') 0 \<noteq> None" by auto
  moreover have "length (drop (length (js ''$x'')) (drop 2 (js ''a $x #y'')))
                   < length (js ''a $x #y'')"
    by (simp add: js_def)
  ultimately show ?thesis using d h by simp
qed

section \<open>Properties of the content extractor\<close>

lemma content_loop_exhausted:
  "current w = None \<Longrightarrow> content_loop isC getT w acc = Some acc"
  by (subst content_loop.simps) (simp add: walker_next_def)

lemma content_loop_after_resume:
  "content_loop isC getT (snd (walker_next isC (resumeAt [] False w))) acc = Some acc"
  by (rule content_loop_exhausted) (simp add: walker_next_def resumeAt_def)

lemma content_loop_children:
  assumes kids: "children (root w0) = ts @ n # rest"
    and leading: "\<forall>t\<in>set ts. ntype t = ''text'' \<and> \<not> isC t"
    and non: "ntype n \<noteq> ''text''"
    and k: "k \<le> length ts"
  shows "content_loop isC getT \<lparr>root = root w0, current = Some [k], entering = True\<rparr> acc
           = Some (acc @ concat (map literal (drop k ts)) @ getT n)"
  using k
proof (induction "length ts - k" arbitrary: k acc)
  case 0
  then have k: "k = length ts" by simp
  let ?w = "\<lparr>root = root w0, current = Some [k], entering = True\<rparr>"
  have at: "node_at (root w0) [k] = Some n"
    using kids k by simp
  obtain w1 where nx: "walker_next isC ?w = (Some \<lparr>ev_node = n, ev_path = [k], ev_entering = True\<rparr>, w1)"
    using at by (simp add: walker_next_def)
  have "content_loop isC getT ?w acc
          = content_loop isC getT (snd (walker_next isC (resumeAt [] False w1))) (acc @ getT n)"
    using nx non by (subst content_loop.simps) simp
  then show ?case using k by (simp add: content_loop_after_resume)
next
  case (Suc d)
  then have k: "k < length ts" by simp
  let ?w = "\<lparr>root = root w0, current = Some [k], entering = True\<rparr>"
  let ?t = "ts ! k"
  have tk: "ntype ?t = ''text''" "\<not> isC ?t" using leading k by auto
  have at: "node_at (root w0) [k] = Some ?t"
    using kids k by (simp add: nth_append)
  have sib: "node_at (root w0) [Suc k] \<noteq> None"
    using kids k by simp
  have nx: "walker_next isC ?w
              = (Some \<lparr>ev_node = ?t, ev_path = [k], ev_entering = True\<rparr>,
                 \<lparr>root = root w0, current = Some [Suc k], entering = True\<rparr>)"
    using at sib tk by (simp add: walker_next_def)
  have "content_loop isC getT ?w acc
          = content_loop isC getT \<lparr>root = root w0, current = Some [Suc k], entering = True\<rparr>
              (acc @ literal ?t)"
    using nx tk by (subst content_loop.simps) simp
  also have "\<dots> = Some ((acc @ literal ?t) @ concat (map literal (drop (Suc k) ts)) @ getT n)"
    using Suc k by (intro Suc.hyps(1)) auto
  finally have "content_loop isC getT ?w acc
          = Some ((acc @ literal ?t) @ concat (map literal (drop (Suc k) ts)) @ getT n)" .
  moreover have "drop k ts = ?t # drop (Suc k) ts"
    using k by (simp add: Cons_nth_drop_Suc)
  ultimately show ?case by simp
qed

text \<open>
  C9. When the children of the widget node are text nodes \<open>ts\<close> followed by a node
  \<open>n\<close> that is not a text node (and by any further siblings \<open>rest\<close>), the loop
  returns, and what it returns is the literals of \<open>ts\<close> followed by the extracted
  inline text of \<open>n\<close>: after \<open>n\<close> the walker is put on the exit event of the widget
  node, so the siblings after \<open>n\<close> contribute nothing.
\<close>

theorem extraction_stops_at_first_non_text:
  assumes "isContainer widgetNode" and "ntype widgetNode \<noteq> ''text''"
    and "children widgetNode = ts @ n # rest"
    and "\<forall>t\<in>set ts. ntype t = ''text'' \<and> \<not> isContainer t"
    and "ntype n \<noteq> ''text''"
  shows "getWidgetContent isContainer getInlineMarkdownText widgetNode
           = Some (concat (map literal ts) @ getInlineMarkdownText n)"
proof -
  let ?w = "walker_of widgetNode"
  have nx: "walker_next isContainer ?w
              = (Some \<lparr>ev_node = widgetNode, ev_path = [], ev_entering = True\<rparr>,
                 \<lparr>root = widgetNode, current = Some [0], entering = True\<rparr>)"
    using assms(1,3) by (simp add: walker_next_def walker_of_def)
  have "content_loop isContainer getInlineMarkdownText ?w []
          = content_loop isContainer getInlineMarkdownText
              \<lparr>root = widgetNode, current = Some [0], entering = True\<rparr> []"
    using nx assms(2) by (subst content_loop.simps) simp
  also have "\<dots> = Some ([] @ concat (map literal (drop 0 ts)) @ getInlineMarkdownText n)"
    using content_loop_children [of "\<lparr>root = widgetNode, current = None, entering = True\<rparr>" ts n rest
        isContainer 0 getInlineMarkdownText "[]"] assms(3,4,5)
    by simp
  finally show ?thesis by (simp add: getWidgetContent_def)
qed

theorem extraction_stops_at_first_non_text_witness:
  "getWidgetContent (\<lambda>n. ntype n \<noteq> ''text'') (\<lambda>n. concat (map literal (children n)))
     (MdNode ''customInline'' []
        [MdNode ''text'' (js ''foo'') [],
         MdNode ''emph'' [] [MdNode ''text'' (js ''bar'') []],
         MdNode ''text'' (js ''baz'') []])
   = Some (js ''foobar'')"
proof -
  let ?isC = "\<lambda>n. ntype n \<noteq> ''text''"
  let ?getT = "\<lambda>n. concat (map literal (children n))"
  let ?ts = "[MdNode ''text'' (js ''foo'') []]"
  let ?n = "MdNode ''emph'' [] [MdNode ''text'' (js ''bar'') []]"
  let ?rest = "[MdNode ''text'' (js ''baz'') []]"
  let ?root = "MdNode ''customInline'' [] (?ts @ ?n # ?rest)"
  have a: "?isC ?root" and b: "ntype ?root \<noteq> ''text''" by simp_all
  have c: "children ?root = ?ts @ ?n # ?rest" by simp
  have d: "\<forall>t\<in>set ?ts. ntype t = ''text'' \<and> \<not> ?isC t" by simp
  have e: "ntype ?n \<noteq> ''text''" by simp
  from extraction_stops_at_first_non_text [of ?isC ?root ?ts ?n ?rest ?getT, OF a b c d e]
  show ?thesis by (simp add: js_def)
qed

end
